theory Spec2Isabelle
  imports Main "HOL-Library.Word"
begin

unbundle bit_operations_syntax

section \<open>Machine types and byte order\<close>

text \<open>
  The relay and its client are two C++ programs (\<^verbatim>\<open>Multiplayer/Server.cpp\<close> and
  \<^verbatim>\<open>Client/Client.cpp\<close>). Bytes are \<^verbatim>\<open>uint8_t\<close>, the length field of a frame is a
  \<^verbatim>\<open>uint32_t\<close>, and a \<^verbatim>\<open>std::vector<uint8_t>\<close> is a list of bytes. Container sizes and
  offsets are \<^verbatim>\<open>size_t\<close>; they are modelled as natural numbers, which is exact on a
  platform with a 64-bit \<^verbatim>\<open>size_t\<close> (the sum of an offset of 6 and a 32-bit length
  cannot wrap there).
\<close>

type_synonym uint8_t = "8 word"
type_synonym uint32_t = "32 word"

text \<open>
  The code moves a \<^verbatim>\<open>uint32_t\<close> between host and network byte order with
  \<^verbatim>\<open>htonl\<close>/\<^verbatim>\<open>ntohl\<close> and copies its object representation byte by byte
  (\<^verbatim>\<open>(uint8_t*)&length\<close>, \<^verbatim>\<open>memcpy(&length, &buffer[offset], 4)\<close>). Both depend on
  the host, which is a parameter of the model.
\<close>

datatype byte_order = LittleEndian | BigEndian

definition be_bytes :: "uint32_t \<Rightarrow> uint8_t list" where
  "be_bytes w = [ucast (drop_bit 24 w), ucast (drop_bit 16 w), ucast (drop_bit 8 w), ucast w]"

definition be_word :: "uint8_t list \<Rightarrow> uint32_t" where
  "be_word bs = push_bit 24 (ucast (bs ! 0)) OR push_bit 16 (ucast (bs ! 1))
                OR push_bit 8 (ucast (bs ! 2)) OR ucast (bs ! 3)"

text \<open>The four bytes of a \<^verbatim>\<open>uint32_t\<close> object in memory, lowest address first.\<close>

definition object_bytes :: "byte_order \<Rightarrow> uint32_t \<Rightarrow> uint8_t list" where
  "object_bytes host w =
     (case host of BigEndian \<Rightarrow> be_bytes w | LittleEndian \<Rightarrow> rev (be_bytes w))"

text \<open>The value of a \<^verbatim>\<open>uint32_t\<close> object after \<^verbatim>\<open>memcpy\<close> of four bytes into it.\<close>

definition object_value :: "byte_order \<Rightarrow> uint8_t list \<Rightarrow> uint32_t" where
  "object_value host bs =
     (case host of BigEndian \<Rightarrow> be_word bs | LittleEndian \<Rightarrow> be_word (rev bs))"

text \<open>\<^verbatim>\<open>htonl\<close> is the identity on a big-endian host and a byte swap on a little-endian one;
  \<^verbatim>\<open>ntohl\<close> is the same function.\<close>

definition htonl :: "byte_order \<Rightarrow> uint32_t \<Rightarrow> uint32_t" where
  "htonl host w =
     (case host of BigEndian \<Rightarrow> w | LittleEndian \<Rightarrow> be_word (rev (be_bytes w)))"

definition ntohl :: "byte_order \<Rightarrow> uint32_t \<Rightarrow> uint32_t" where
  "ntohl host w = htonl host w"

section \<open>Messages\<close>

definition TEXT_MESSAGE :: uint8_t where "TEXT_MESSAGE = 0"
definition EVENT_MESSAGE :: uint8_t where "EVENT_MESSAGE = 1"
definition SNAPSHOT_MESSAGE :: uint8_t where "SNAPSHOT_MESSAGE = 2"

text \<open>
  \<^verbatim>\<open>BaseMessage\<close> carries \<^verbatim>\<open>messageType\<close> and \<^verbatim>\<open>senderID\<close>; each of the three derived
  classes adds one byte vector (\<^verbatim>\<open>text\<close>, \<^verbatim>\<open>eventData\<close>, \<^verbatim>\<open>snapshotData\<close>) and its
  constructor fixes \<^verbatim>\<open>messageType\<close>. A \<^verbatim>\<open>BaseMessage*\<close> is therefore one of three
  cases, each with a sender and a byte vector.
\<close>

datatype BaseMessage =
    TextMessage (senderID: uint8_t) "uint8_t list"
  | EventMessage (senderID: uint8_t) "uint8_t list"
  | SnapshotMessage (senderID: uint8_t) "uint8_t list"

fun messageType :: "BaseMessage \<Rightarrow> uint8_t" where
  "messageType (TextMessage _ _) = TEXT_MESSAGE"
| "messageType (EventMessage _ _) = EVENT_MESSAGE"
| "messageType (SnapshotMessage _ _) = SNAPSHOT_MESSAGE"

text \<open>The byte vector of the derived class.\<close>

fun payload :: "BaseMessage \<Rightarrow> uint8_t list" where
  "payload (TextMessage _ txt) = txt"
| "payload (EventMessage _ eventData) = eventData"
| "payload (SnapshotMessage _ snapshotData) = snapshotData"

text \<open>The assignment \<^verbatim>\<open>msg->senderID = clientID\<close>.\<close>

fun set_senderID :: "BaseMessage \<Rightarrow> uint8_t \<Rightarrow> BaseMessage" where
  "set_senderID (TextMessage _ txt) c = TextMessage c txt"
| "set_senderID (EventMessage _ eventData) c = EventMessage c eventData"
| "set_senderID (SnapshotMessage _ snapshotData) c = SnapshotMessage c snapshotData"

section \<open>Wire codec\<close>

text \<open>
  \<^verbatim>\<open>serializeMessage(msg, buffer)\<close> appends to \<^verbatim>\<open>buffer\<close>: the type byte, the sender
  byte, then, by case of the type, the four bytes of \<^verbatim>\<open>htonl(size)\<close> and the bytes of the
  vector. The conversion of \<^verbatim>\<open>size()\<close> to \<^verbatim>\<open>uint32_t\<close> keeps the low 32 bits.
  Both programs hold the same text of this function and of \<^verbatim>\<open>deserializeMessage\<close>.
\<close>

definition serializeMessage :: "byte_order \<Rightarrow> BaseMessage \<Rightarrow> uint8_t list \<Rightarrow> uint8_t list" where
  "serializeMessage host msg buffer =
     (let buffer = buffer @ [messageType msg];
          buffer = buffer @ [senderID msg]
      in case msg of
           TextMessage _ txt \<Rightarrow>
             (let len = htonl host (of_nat (length txt));
                  buffer = buffer @ object_bytes host len
              in buffer @ txt)
         | EventMessage _ eventData \<Rightarrow>
             (let len = htonl host (of_nat (length eventData));
                  buffer = buffer @ object_bytes host len
              in buffer @ eventData)
         | SnapshotMessage _ snapshotData \<Rightarrow>
             (let len = htonl host (of_nat (length snapshotData));
                  buffer = buffer @ object_bytes host len
              in buffer @ snapshotData))"

text \<open>
  \<^verbatim>\<open>deserializeMessage(buffer)\<close> returns a null pointer (\<open>None\<close>) or a freshly built
  message. The bytes between \<^verbatim>\<open>offset\<close> and \<^verbatim>\<open>offset + length\<close> pass through a
  \<^verbatim>\<open>std::string\<close> built from an iterator range and back into a byte vector, which
  keeps every byte.
\<close>

definition deserializeMessage :: "byte_order \<Rightarrow> uint8_t list \<Rightarrow> BaseMessage option" where
  "deserializeMessage host buffer =
     (if length buffer < 2 then None
      else
        let mtype = buffer ! 0;
            sender = buffer ! 1;
            offset = 2
        in
          if mtype = TEXT_MESSAGE then
            (if length buffer < offset + 4 then None
             else
               let len = ntohl host (object_value host (take 4 (drop offset buffer)));
                   offset = offset + 4
               in if length buffer < offset + unat len then None
                  else Some (TextMessage sender (take (unat len) (drop offset buffer))))
          else if mtype = EVENT_MESSAGE then
            (if length buffer < offset + 4 then None
             else
               let len = ntohl host (object_value host (take 4 (drop offset buffer)));
                   offset = offset + 4
               in if length buffer < offset + unat len then None
                  else Some (EventMessage sender (take (unat len) (drop offset buffer))))
          else if mtype = SNAPSHOT_MESSAGE then
            (if length buffer < offset + 4 then None
             else
               let len = ntohl host (object_value host (take 4 (drop offset buffer)));
                   offset = offset + 4
               in if length buffer < offset + unat len then None
                  else Some (SnapshotMessage sender (take (unat len) (drop offset buffer))))
          else None)"

text \<open>The payload length a buffer of at least six bytes declares at offset 2.\<close>

definition declared_length :: "uint8_t list \<Rightarrow> nat" where
  "declared_length buffer = unat (be_word (take 4 (drop 2 buffer)))"

definition known_kind :: "uint8_t \<Rightarrow> bool" where
  "known_kind k = (k = TEXT_MESSAGE \<or> k = EVENT_MESSAGE \<or> k = SNAPSHOT_MESSAGE)"

section \<open>Server: connection registry and accept loop\<close>

text \<open>
  A \<^verbatim>\<open>ClientHandler\<close> holds the accepted socket and the id given at accept (its
  thread handle plays no part here). Sockets are the \<^verbatim>\<open>int\<close> descriptors of the
  non-Windows branch, where \<^verbatim>\<open>INVALID_SOCKET\<close> is \<open>-1\<close>.
\<close>

record ClientHandler =
  socket :: int
  clientID :: uint8_t

record Server =
  clients :: "ClientHandler list"
  nextClientID :: uint8_t
  isRunning :: bool

definition INVALID_SOCKET :: int where "INVALID_SOCKET = - 1"

text \<open>The constructor: \<^verbatim>\<open>Server() : nextClientID(1), isRunning(true) {}\<close>.\<close>

definition Server_init :: Server where
  "Server_init = \<lparr>clients = [], nextClientID = 1, isRunning = True\<rparr>"

text \<open>
  One iteration of the loop of \<^verbatim>\<open>acceptClients\<close>, given what \<^verbatim>\<open>accept\<close> returned:
  \<^verbatim>\<open>clientID = nextClientID++\<close> on an 8-bit counter, a new handler pushed to the back
  of \<^verbatim>\<open>clients\<close>. The result holds the handler whose thread is started, if any.
\<close>

definition acceptClients_body :: "int \<Rightarrow> Server \<Rightarrow> ClientHandler option \<times> Server" where
  "acceptClients_body clientSocket srv =
     (if clientSocket \<noteq> INVALID_SOCKET then
        let cid = nextClientID srv;
            srv = srv\<lparr>nextClientID := nextClientID srv + 1\<rparr>;
            clientHandler = \<lparr>socket = clientSocket, clientID = cid\<rparr>;
            srv = srv\<lparr>clients := clients srv @ [clientHandler]\<rparr>
        in (Some clientHandler, srv)
      else (None, srv))"

text \<open>
  The teardown of \<^verbatim>\<open>handleClient\<close>: \<^verbatim>\<open>clients.erase(std::remove_if(...))\<close> drops
  every handler whose id is the exiting handler's id.
\<close>

definition remove_client :: "uint8_t \<Rightarrow> Server \<Rightarrow> Server" where
  "remove_client cid srv = srv\<lparr>clients := filter (\<lambda>ch. clientID ch \<noteq> cid) (clients srv)\<rparr>"

text \<open>
  The registry changes in two places only, both under \<^verbatim>\<open>clientsMutex\<close>: the accept
  loop and the teardown of a handler. A run of the server is a sequence of these
  events in the order the mutex serialises them; it records the handlers started, in
  acceptance order, next to the server state.
\<close>

datatype server_event = Accept int | Disconnect uint8_t

fun server_step :: "ClientHandler list \<times> Server \<Rightarrow> server_event \<Rightarrow> ClientHandler list \<times> Server" where
  "server_step (started, srv) (Accept clientSocket) =
     (case acceptClients_body clientSocket srv of
        (Some ch, srv') \<Rightarrow> (started @ [ch], srv')
      | (None, srv') \<Rightarrow> (started, srv'))"
| "server_step (started, srv) (Disconnect cid) = (started, remove_client cid srv)"

definition server_run :: "server_event list \<Rightarrow> ClientHandler list \<times> Server" where
  "server_run events = foldl server_step ([], Server_init) events"

text \<open>The events that are an accepted connection: \<^verbatim>\<open>accept\<close> returned a socket.\<close>

fun is_accepted :: "server_event \<Rightarrow> bool" where
  "is_accepted (Accept clientSocket) = (clientSocket \<noteq> INVALID_SOCKET)"
| "is_accepted (Disconnect _) = False"

fun is_disconnect :: "server_event \<Rightarrow> bool" where
  "is_disconnect (Accept _) = False"
| "is_disconnect (Disconnect _) = True"

section \<open>Server: broadcast\<close>

text \<open>
  \<^verbatim>\<open>broadcastMessage\<close> serialises the message into an empty buffer, computes
  \<^verbatim>\<open>htonl(buffer.size())\<close> and walks \<^verbatim>\<open>clients\<close> in order; for every handler whose
  id differs from \<^verbatim>\<open>excludeID\<close> it calls \<^verbatim>\<open>send\<close> twice, first with the four bytes of
  the size, then with the buffer. Its effect is the list of \<^verbatim>\<open>send\<close> calls, each a
  socket and the bytes handed to it. Return values of \<^verbatim>\<open>send\<close> are not looked at by
  the code.
\<close>

fun send_loop :: "uint8_t list \<Rightarrow> uint8_t list \<Rightarrow> uint8_t \<Rightarrow> ClientHandler list \<Rightarrow> (int \<times> uint8_t list) list" where
  "send_loop size_bytes buffer excludeID [] = []"
| "send_loop size_bytes buffer excludeID (clientHandler # rest) =
     (if clientID clientHandler \<noteq> excludeID then
        (socket clientHandler, size_bytes) # (socket clientHandler, buffer)
          # send_loop size_bytes buffer excludeID rest
      else send_loop size_bytes buffer excludeID rest)"

definition broadcastMessage :: "byte_order \<Rightarrow> BaseMessage \<Rightarrow> uint8_t \<Rightarrow> Server \<Rightarrow> (int \<times> uint8_t list) list" where
  "broadcastMessage host msg excludeID srv =
     (let buffer = serializeMessage host msg [];
          msgSize = htonl host (of_nat (length buffer))
      in send_loop (object_bytes host msgSize) buffer excludeID (clients srv))"

text \<open>All bytes a list of \<^verbatim>\<open>send\<close> calls hands to one socket, in order.\<close>

definition written :: "int \<Rightarrow> (int \<times> uint8_t list) list \<Rightarrow> uint8_t list" where
  "written s calls = concat (map snd (filter (\<lambda>c. fst c = s) calls))"

text \<open>
  The frame of a buffer on the stream as the specification describes it: four bytes
  that give the total byte count of what follows, most significant first, then the
  buffer. Four bytes count up to \<open>2 ^ 32 - 1\<close>; a longer buffer has no such frame.
\<close>

definition stream_frame :: "uint8_t list \<Rightarrow> uint8_t list option" where
  "stream_frame buffer =
     (if length buffer < 2 ^ 32 then Some (be_bytes (of_nat (length buffer)) @ buffer)
      else None)"

section \<open>Server: connection handler\<close>

text \<open>
  What a socket delivers is a finite list of segments; a call \<^verbatim>\<open>recv(s, p, len, 0)\<close>
  returns at most \<^verbatim>\<open>len\<close> bytes of the first segment and leaves the rest of it for
  the next call. An empty segment and the end of the list are the peer's shutdown
  (\<^verbatim>\<open>recv\<close> returns 0); \<open>SocketError\<close> is a failed call (\<^verbatim>\<open>recv\<close> returns \<open>-1\<close>).
  The count of bytes a call returns is taken to fit the \<^verbatim>\<open>int\<close> that receives it.
\<close>

datatype recv_event = Segment "uint8_t list" | SocketError

fun recv :: "nat \<Rightarrow> recv_event list \<Rightarrow> int \<times> uint8_t list \<times> recv_event list" where
  "recv len [] = (0, [], [])"
| "recv len (SocketError # rest) = (- 1, [], rest)"
| "recv len (Segment bs # rest) =
     (if length bs \<le> len then (int (length bs), bs, rest)
      else (int len, take len bs, Segment (drop len bs) # rest))"

text \<open>
  The inner loop of \<^verbatim>\<open>handleClient\<close>: it fills \<^verbatim>\<open>buffer\<close> from offset
  \<^verbatim>\<open>totalReceived\<close> until \<^verbatim>\<open>msgSize\<close> bytes are there or a call returns 0 or less. It
  returns the last value of \<^verbatim>\<open>bytesReceived\<close>, which the code tests after the loop.
\<close>

function recv_payload :: "nat \<Rightarrow> nat \<Rightarrow> uint8_t list \<Rightarrow> int \<Rightarrow> recv_event list
    \<Rightarrow> int \<times> uint8_t list \<times> recv_event list" where
  "recv_payload msgSize totalReceived buffer bytesReceived input =
     (if totalReceived < msgSize then
        (case recv (msgSize - totalReceived) input of
           (bytesReceived, bs, input) \<Rightarrow>
             if bytesReceived \<le> 0 then (bytesReceived, buffer, input)
             else recv_payload msgSize (totalReceived + nat bytesReceived)
                    (take totalReceived buffer @ bs @ drop (totalReceived + length bs) buffer)
                    bytesReceived input)
      else (bytesReceived, buffer, input))"
  by pat_completeness auto
termination
  by (relation "measure (\<lambda>(msgSize, totalReceived, _). msgSize - totalReceived)") auto

text \<open>The next \<^verbatim>\<open>recv\<close> on the socket returns zero or a negative value, whatever
  length is asked for.\<close>

fun read_fails :: "recv_event list \<Rightarrow> bool" where
  "read_fails [] = True"
| "read_fails (SocketError # rest) = True"
| "read_fails (Segment bs # rest) = (bs = [])"

text \<open>
  What a handler does, in order: calls of \<^verbatim>\<open>broadcastMessage(msg, excludeID)\<close>, then
  the teardown (removal from the registry, \<^verbatim>\<open>closesocket\<close>).
\<close>

datatype handler_action =
    Broadcast BaseMessage uint8_t
  | RemoveClient uint8_t
  | CloseSocket int

text \<open>The number of bytes and segments a socket still holds: it bounds the loop.\<close>

fun pending :: "recv_event list \<Rightarrow> nat" where
  "pending [] = 0"
| "pending (SocketError # rest) = Suc (pending rest)"
| "pending (Segment bs # rest) = Suc (length bs + pending rest)"

text \<open>
  The loop \<^verbatim>\<open>while (isRunning)\<close> of \<^verbatim>\<open>handleClient\<close>, for a server that is not
  stopped meanwhile. \<open>exit_actions\<close> is what follows the loop.

  \<^verbatim>\<open>uint32_t msgSize\<close> is declared in the loop body without a value, and the first
  \<^verbatim>\<open>recv\<close> writes as many of its four bytes as it returns, from the lowest address.
  The loop leaves only when that call returns 0 or less; after one to three bytes it
  goes on with the bytes that were never written. \<open>stale k\<close> is the value the object
  holds before the call in the \<open>k\<close>-th iteration from here.
\<close>

function handleClient_loop :: "byte_order \<Rightarrow> uint8_t \<Rightarrow> (nat \<Rightarrow> uint32_t) \<Rightarrow> handler_action list
    \<Rightarrow> recv_event list \<Rightarrow> handler_action list" where
  "handleClient_loop host cid stale exit_actions input =
     (case recv 4 input of
        (bytesReceived, received, input1) \<Rightarrow>
          if bytesReceived \<le> 0 then exit_actions
          else
            let size_bytes = received @ drop (length received) (object_bytes host (stale 0));
                msgSize = unat (ntohl host (object_value host size_bytes))
            in
            (case recv_payload msgSize 0 (replicate msgSize 0) bytesReceived input1 of
               (bytesReceived, buffer, input2) \<Rightarrow>
                 if bytesReceived \<le> 0 then exit_actions
                 else
                   (case deserializeMessage host buffer of
                      Some msg \<Rightarrow>
                        Broadcast (set_senderID msg cid) cid
                          # handleClient_loop host cid (\<lambda>k. stale (Suc k)) exit_actions input2
                    | None \<Rightarrow>
                        handleClient_loop host cid (\<lambda>k. stale (Suc k)) exit_actions input2)))"
  by pat_completeness auto

text \<open>\<^verbatim>\<open>handleClient\<close>: the loop, then removal from the registry and \<^verbatim>\<open>closesocket\<close>.\<close>

definition handleClient :: "byte_order \<Rightarrow> (nat \<Rightarrow> uint32_t) \<Rightarrow> ClientHandler \<Rightarrow> recv_event list
    \<Rightarrow> handler_action list" where
  "handleClient host stale clientHandler input =
     (let clientSocket = socket clientHandler;
          cid = clientID clientHandler
      in handleClient_loop host cid stale [RemoveClient cid, CloseSocket clientSocket] input)"

section \<open>Client: mailbox and dispatcher\<close>

text \<open>
  The three containers of \<^verbatim>\<open>Client\<close> that \<^verbatim>\<open>messageMutex\<close> guards: two vectors and a
  \<^verbatim>\<open>std::map<uint8_t, SnapshotMessage>\<close>. The map is the list of its entries in
  iteration order, which for \<^verbatim>\<open>std::map\<close> is ascending key order with one entry per
  key (\<open>map_ok\<close>).
\<close>

record Client =
  textMessages :: "BaseMessage list"
  eventMessages :: "BaseMessage list"
  snapshotMessages :: "(uint8_t \<times> BaseMessage) list"

definition map_ok :: "(uint8_t \<times> 'v) list \<Rightarrow> bool" where
  "map_ok m = sorted_wrt (<) (map fst m)"

text \<open>\<^verbatim>\<open>m[key] = value\<close> on a \<^verbatim>\<open>std::map\<close>: the entry of the key is created in its
  place when there is none, and assigned.\<close>

fun map_assign :: "uint8_t \<Rightarrow> 'v \<Rightarrow> (uint8_t \<times> 'v) list \<Rightarrow> (uint8_t \<times> 'v) list" where
  "map_assign key val [] = [(key, val)]"
| "map_assign key val ((k, v) # m) =
     (if key < k then (key, val) # (k, v) # m
      else if key = k then (key, val) # m
      else (k, v) # map_assign key val m)"

text \<open>The entries a map holds for one key.\<close>

definition entries_for :: "uint8_t \<Rightarrow> (uint8_t \<times> 'v) list \<Rightarrow> 'v list" where
  "entries_for key m = map snd (filter (\<lambda>e. fst e = key) m)"

text \<open>\<^verbatim>\<open>sortMessageByType\<close>, run under the lock: a copy of the message goes to the back of
  its vector, or into the map under its sender.\<close>

definition sortMessageByType :: "BaseMessage \<Rightarrow> Client \<Rightarrow> Client" where
  "sortMessageByType msg cl =
     (case msg of
        TextMessage _ _ \<Rightarrow> cl\<lparr>textMessages := textMessages cl @ [msg]\<rparr>
      | EventMessage _ _ \<Rightarrow> cl\<lparr>eventMessages := eventMessages cl @ [msg]\<rparr>
      | SnapshotMessage _ _ \<Rightarrow>
          cl\<lparr>snapshotMessages := map_assign (senderID msg) msg (snapshotMessages cl)\<rparr>)"

text \<open>
  What the dispatcher thread does, in order: taking and releasing \<^verbatim>\<open>messageMutex\<close>
  (the \<^verbatim>\<open>std::lock_guard\<close> of the inner block), the three handlers, the sleep.
\<close>

datatype client_event =
    Lock
  | Unlock
  | DisplayTextMessage BaseMessage
  | ProcessEventMessage BaseMessage
  | ProcessSnapshotMessage BaseMessage
  | Sleep100

text \<open>
  Each of the three loops of \<^verbatim>\<open>processMessages\<close>:
  \<^verbatim>\<open>for (it = c.begin(); it != c.end(); ) { handler(&*it); it = c.erase(it); }\<close>
  calls the handler on the first element and erases it, until the container is empty.
  It returns the calls made, after those made before, and the container it leaves.
\<close>

fun drain_loop :: "('a \<Rightarrow> client_event) \<Rightarrow> client_event list \<Rightarrow> 'a list \<Rightarrow> client_event list \<times> 'a list" where
  "drain_loop handler trace [] = (trace, [])"
| "drain_loop handler trace (x # rest) = drain_loop handler (trace @ [handler x]) rest"

text \<open>One iteration of \<^verbatim>\<open>while (isConnected)\<close> in \<^verbatim>\<open>processMessages\<close>.\<close>

definition processMessages_body :: "Client \<Rightarrow> client_event list \<times> Client" where
  "processMessages_body cl =
     (let trace = [Lock];
          (trace, texts) = drain_loop DisplayTextMessage trace (textMessages cl);
          (trace, events) = drain_loop ProcessEventMessage trace (eventMessages cl);
          (trace, snapshots) =
             drain_loop (\<lambda>entry. ProcessSnapshotMessage (snd entry)) trace (snapshotMessages cl);
          trace = trace @ [Unlock];
          trace = trace @ [Sleep100]
      in (trace, cl\<lparr>textMessages := texts, eventMessages := events, snapshotMessages := snapshots\<rparr>))"

text \<open>The messages the handlers were called on, in order.\<close>

fun handled :: "client_event list \<Rightarrow> BaseMessage list" where
  "handled [] = []"
| "handled (DisplayTextMessage m # es) = m # handled es"
| "handled (ProcessEventMessage m # es) = m # handled es"
| "handled (ProcessSnapshotMessage m # es) = m # handled es"
| "handled (_ # es) = handled es"

section \<open>Server: the handler loop terminates\<close>

text \<open>Every iteration that goes round again has taken something off the socket.\<close>

lemma recv_pending_le:
  "recv len input = (r, bs, input') \<Longrightarrow> pending input' \<le> pending input"
  by (induction len input rule: recv.induct) (auto split: if_splits)

lemma recv_pending_less:
  "recv len input = (r, bs, input') \<Longrightarrow> 0 < r \<Longrightarrow> pending input' < pending input"
  by (induction len input rule: recv.induct) (auto split: if_splits)

lemma recv_payload_pending_le:
  "recv_payload msgSize totalReceived buffer bytesReceived input = (r, buffer', input')
     \<Longrightarrow> pending input' \<le> pending input"
proof (induction msgSize totalReceived buffer bytesReceived input rule: recv_payload.induct)
  case (1 msgSize totalReceived buffer bytesReceived input)
  show ?case
  proof (cases "totalReceived < msgSize")
    case False
    with "1.prems" show ?thesis by simp
  next
    case True
    obtain r1 bs input1 where rv: "recv (msgSize - totalReceived) input = (r1, bs, input1)"
      by (cases "recv (msgSize - totalReceived) input") auto
    have le1: "pending input1 \<le> pending input" using rv by (rule recv_pending_le)
    show ?thesis
    proof (cases "r1 \<le> 0")
      case True
      with \<open>totalReceived < msgSize\<close> rv "1.prems" le1 show ?thesis by simp
    next
      case False
      with \<open>totalReceived < msgSize\<close> rv "1.prems"
      have "recv_payload msgSize (totalReceived + nat r1)
              (take totalReceived buffer @ bs @ drop (totalReceived + length bs) buffer) r1 input1
            = (r, buffer', input')" by simp
      from "1.IH" [OF \<open>totalReceived < msgSize\<close> rv [symmetric] refl False this] le1
      show ?thesis by simp
    qed
  qed
qed

lemma handleClient_loop_decreases:
  assumes "(x, y) = recv 4 input" "(xa, ya) = y" "\<not> x \<le> 0"
    and "(xaa, yb) = recv_payload xb 0 buf x ya" "(xc, yc) = yb"
  shows "pending yc < pending input"
proof -
  have "recv 4 input = (x, xa, ya)" using assms(1,2) by simp
  then have "pending ya < pending input" using assms(3) by (intro recv_pending_less) auto
  moreover have "recv_payload xb 0 buf x ya = (xaa, xc, yc)" using assms(4,5) by simp
  then have "pending yc \<le> pending ya" by (rule recv_payload_pending_le)
  ultimately show ?thesis by simp
qed

termination handleClient_loop
  apply (relation "measure (\<lambda>(host, cid, stale, exit_actions, input). pending input)")
    apply simp
   apply (simp del: recv_payload.simps, erule (4) handleClient_loop_decreases)
  apply (simp del: recv_payload.simps, erule (4) handleClient_loop_decreases)
  done

declare recv_payload.simps [simp del] handleClient_loop.simps [simp del]

section \<open>Byte order: facts\<close>

lemma length_be_bytes: "length (be_bytes w) = 4"
  by (simp add: be_bytes_def)

lemma be_word_be_bytes: "be_word (be_bytes w) = w"
proof (rule bit_word_eqI)
  fix n assume n: "n < LENGTH(32)"
  consider "n < 8" | "8 \<le> n" "n < 16" | "16 \<le> n" "n < 24" | "24 \<le> n" by linarith
  then show "bit (be_word (be_bytes w)) n = bit w n"
    using n by cases (auto simp add: be_word_def be_bytes_def bit_simps)
qed

lemma be_bytes_be_word:
  assumes "length bs = 4"
  shows "be_bytes (be_word bs) = bs"
proof -
  from assms obtain a b c d where bs: "bs = [a, b, c, d]"
    by (auto simp: length_Suc_conv numeral_eq_Suc)
  have "ucast (drop_bit 24 (be_word bs)) = a" unfolding bs be_word_def
    by (rule bit_word_eqI) (auto simp add: bit_simps dest: bit_imp_le_length)
  moreover have "ucast (drop_bit 16 (be_word bs)) = b" unfolding bs be_word_def
    by (rule bit_word_eqI) (auto simp add: bit_simps dest: bit_imp_le_length)
  moreover have "ucast (drop_bit 8 (be_word bs)) = c" unfolding bs be_word_def
    by (rule bit_word_eqI) (auto simp add: bit_simps dest: bit_imp_le_length)
  moreover have "ucast (be_word bs) = d" unfolding bs be_word_def
    by (rule bit_word_eqI) (auto simp add: bit_simps dest: bit_imp_le_length)
  ultimately show ?thesis by (simp add: be_bytes_def bs)
qed

text \<open>On either host, the bytes stored for \<^verbatim>\<open>htonl(w)\<close> are \<open>w\<close> most significant byte
  first, and \<^verbatim>\<open>ntohl\<close> of four copied bytes reads them so.\<close>

lemma object_bytes_htonl: "object_bytes host (htonl host w) = be_bytes w"
  by (cases host) (simp_all add: object_bytes_def htonl_def be_bytes_be_word length_be_bytes)

lemma ntohl_object_value:
  "length bs = 4 \<Longrightarrow> ntohl host (object_value host bs) = be_word bs"
  by (cases host)
     (simp_all add: object_value_def ntohl_def htonl_def be_bytes_be_word be_word_be_bytes)

section \<open>Wire codec: facts\<close>

lemma kinds_distinct:
  "TEXT_MESSAGE \<noteq> EVENT_MESSAGE" "TEXT_MESSAGE \<noteq> SNAPSHOT_MESSAGE"
  "EVENT_MESSAGE \<noteq> SNAPSHOT_MESSAGE" "EVENT_MESSAGE \<noteq> TEXT_MESSAGE"
  "SNAPSHOT_MESSAGE \<noteq> TEXT_MESSAGE" "SNAPSHOT_MESSAGE \<noteq> EVENT_MESSAGE"
  by (simp_all add: TEXT_MESSAGE_def EVENT_MESSAGE_def SNAPSHOT_MESSAGE_def)

lemma serializeMessage_eq:
  "serializeMessage host msg buffer =
     buffer @ [messageType msg, senderID msg]
       @ be_bytes (of_nat (length (payload msg))) @ payload msg"
  by (cases msg) (simp_all add: serializeMessage_def Let_def object_bytes_htonl)

lemma deserializeMessage_eq:
  "deserializeMessage host buffer =
     (if length buffer < 2 \<or> \<not> known_kind (buffer ! 0) \<or> length buffer < 6
         \<or> length buffer < 6 + declared_length buffer
      then None
      else let p = take (declared_length buffer) (drop 6 buffer) in
        Some (if buffer ! 0 = TEXT_MESSAGE then TextMessage (buffer ! 1) p
              else if buffer ! 0 = EVENT_MESSAGE then EventMessage (buffer ! 1) p
              else SnapshotMessage (buffer ! 1) p))"
  by (auto simp add: deserializeMessage_def Let_def known_kind_def declared_length_def
      ntohl_object_value)

lemma deserializeMessage_SomeD:
  assumes "deserializeMessage host buffer = Some m"
  shows "6 + declared_length buffer \<le> length buffer"
    and "length (payload m) = declared_length buffer"
    and "payload m = take (declared_length buffer) (drop 6 buffer)"
    and "messageType m = buffer ! 0"
    and "senderID m = buffer ! 1"
  using assms unfolding deserializeMessage_eq
  by (auto simp: Let_def known_kind_def split: if_splits)

lemma declared_length_take:
  "6 \<le> n \<Longrightarrow> declared_length (take n buffer) = declared_length buffer"
  by (simp add: declared_length_def drop_take min_def)

lemma deserializeMessage_prefix:
  assumes "deserializeMessage host buffer = Some m" and "n < 6 + length (payload m)"
  shows "deserializeMessage host (take n buffer) = None"
proof (cases "n < 6")
  case True
  then show ?thesis unfolding deserializeMessage_eq by (simp add: min_def)
next
  case False
  then have "declared_length (take n buffer) = declared_length buffer"
    by (simp add: declared_length_take)
  with assms(2) deserializeMessage_SomeD(1,2) [OF assms(1)] show ?thesis
    unfolding deserializeMessage_eq by (simp add: min_def)
qed

lemma deserialize_serialize:
  assumes "length (payload m) < 2 ^ 32"
  shows "deserializeMessage host (serializeMessage host m []) = Some m"
proof -
  have u: "unat (of_nat (length (payload m)) :: uint32_t) = length (payload m)"
    using assms by (simp add: unat_of_nat)
  have d: "declared_length (serializeMessage host m []) = length (payload m)"
    by (simp add: serializeMessage_eq declared_length_def be_word_be_bytes u length_be_bytes)
  show ?thesis
    unfolding deserializeMessage_eq d
    by (cases m) (simp_all add: serializeMessage_eq length_be_bytes known_kind_def kinds_distinct)
qed

lemma length_serializeMessage:
  "length (serializeMessage host m []) = 6 + length (payload m)"
  by (simp add: serializeMessage_eq length_be_bytes)

section \<open>Wire codec: round trip\<close>

text \<open>
  A payload of \<open>2 ^ 32\<close> bytes does not survive the round trip: its size is stored in
  four bytes as 0, and decoding the frame gives a message with an empty payload.
\<close>

theorem payload_of_4GiB_not_restored:
  "deserializeMessage LittleEndian
     (serializeMessage LittleEndian (TextMessage 0 (replicate (2 ^ 32) 0)) [])
   \<noteq> Some (TextMessage 0 (replicate (2 ^ 32) 0))"
proof -
  let ?m = "TextMessage 0 (replicate (2 ^ 32) 0)"
  have z: "(of_nat (length (payload ?m)) :: uint32_t) = 0" by simp
  have d: "declared_length (serializeMessage LittleEndian ?m []) = 0"
    unfolding serializeMessage_eq z
    by (simp add: declared_length_def be_word_be_bytes length_be_bytes)
  have "deserializeMessage LittleEndian (serializeMessage LittleEndian ?m [])
          = Some (TextMessage 0 [])"
    unfolding deserializeMessage_eq d
    by (simp add: serializeMessage_eq length_be_bytes known_kind_def TEXT_MESSAGE_def)
  moreover have "replicate (2 ^ 32) (0::uint8_t) \<noteq> []" by simp
  ultimately show ?thesis by simp
qed

text \<open>
  C1 (as amended). For every message of kind Text, Event or Snapshot, with any sender
  byte and any payload of fewer than \<open>2 ^ 32\<close> bytes (the empty one included), decoding
  the frame that encoding produces gives back the message: same kind, same sender,
  same payload bytes. This holds on a host of either byte order.
\<close>

theorem roundtrip:
  assumes "length (payload m) < 2 ^ 32"
  shows "deserializeMessage host (serializeMessage host m []) = Some m"
  using assms by (rule deserialize_serialize)

theorem roundtrip_witness:
  "length (payload (EventMessage 7 [1, 2, 3])) < 2 ^ 32 \<and>
   deserializeMessage LittleEndian (serializeMessage LittleEndian (EventMessage 7 [1, 2, 3]) [])
     = Some (EventMessage 7 [1, 2, 3])"
  using roundtrip [of "EventMessage 7 [1, 2, 3]" LittleEndian] by simp

section \<open>Wire codec: failure\<close>

text \<open>
  C5. Decoding returns failure exactly when the buffer is shorter than the two-byte
  header, or the kind is known and the buffer is shorter than header plus four-byte
  length field, or the length declared at offset 2 (big-endian) exceeds the bytes
  that remain after offset 6, or the kind byte is none of 0, 1, 2. In particular,
  every strict prefix of a frame that decodes (and so of every frame that encoding
  produces from a payload of fewer than \<open>2 ^ 32\<close> bytes) that ends before the
  declared end of the payload fails to decode. The decoder is a total function: it
  returns failure or a message and nothing else.
\<close>

theorem decode_fails_exactly:
  "(deserializeMessage host buffer = None \<longleftrightarrow>
      length buffer < 2
      \<or> (2 \<le> length buffer \<and> known_kind (buffer ! 0) \<and> length buffer < 2 + 4)
      \<or> (6 \<le> length buffer \<and> known_kind (buffer ! 0)
           \<and> length buffer - 6 < declared_length buffer)
      \<or> (2 \<le> length buffer \<and> \<not> known_kind (buffer ! 0)))
   \<and> (\<forall>m n. deserializeMessage host buffer = Some m \<and> n < 6 + length (payload m)
          \<longrightarrow> deserializeMessage host (take n buffer) = None)
   \<and> (\<forall>m n. length (payload m) < 2 ^ 32 \<and> n < length (serializeMessage host m [])
          \<longrightarrow> deserializeMessage host (take n (serializeMessage host m [])) = None)"
proof (intro conjI allI impI)
  show "deserializeMessage host buffer = None \<longleftrightarrow>
      length buffer < 2
      \<or> (2 \<le> length buffer \<and> known_kind (buffer ! 0) \<and> length buffer < 2 + 4)
      \<or> (6 \<le> length buffer \<and> known_kind (buffer ! 0)
           \<and> length buffer - 6 < declared_length buffer)
      \<or> (2 \<le> length buffer \<and> \<not> known_kind (buffer ! 0))"
    unfolding deserializeMessage_eq by (auto simp: Let_def)
next
  fix m n
  assume "deserializeMessage host buffer = Some m \<and> n < 6 + length (payload m)"
  then show "deserializeMessage host (take n buffer) = None"
    by (simp add: deserializeMessage_prefix)
next
  fix m n
  assume a: "length (payload m) < 2 ^ 32 \<and> n < length (serializeMessage host m [])"
  then have "deserializeMessage host (serializeMessage host m []) = Some m"
    by (simp add: deserialize_serialize)
  moreover from a have "n < 6 + length (payload m)" by (simp add: length_serializeMessage)
  ultimately show "deserializeMessage host (take n (serializeMessage host m [])) = None"
    by (rule deserializeMessage_prefix)
qed

theorem decode_fails_exactly_witness:
  "deserializeMessage BigEndian [0, 9, 0, 0, 0, 2, 65] = None
   \<and> deserializeMessage BigEndian [3, 9, 0, 0, 0, 0] = None
   \<and> deserializeMessage BigEndian [1, 9, 0, 0, 0] = None
   \<and> deserializeMessage BigEndian [2] = None
   \<and> deserializeMessage BigEndian (take 7 (serializeMessage BigEndian (TextMessage 9 [65, 66]) [])) = None"
  using decode_fails_exactly [of BigEndian "[0, 9, 0, 0, 0, 2, 65]"]
    decode_fails_exactly [of BigEndian "[3, 9, 0, 0, 0, 0]"]
    decode_fails_exactly [of BigEndian "[1, 9, 0, 0, 0]"]
    decode_fails_exactly [of BigEndian "[2]"]
    decode_fails_exactly [of BigEndian "[]"]
  by (simp add: declared_length_def be_word_def known_kind_def TEXT_MESSAGE_def EVENT_MESSAGE_def
      SNAPSHOT_MESSAGE_def length_serializeMessage)

section \<open>Wire codec: what a successful decode consumed\<close>

text \<open>
  A buffer with a byte after the declared payload decodes all the same: the seven
  bytes below declare an empty payload and yield a Text message.
\<close>

theorem decode_accepts_trailing_bytes:
  "deserializeMessage LittleEndian [0, 5, 0, 0, 0, 0, 99] = Some (TextMessage 5 [])
   \<and> length [0, 5, 0, 0, 0, 0, 99 :: uint8_t] \<noteq> 6 + declared_length [0, 5, 0, 0, 0, 0, 99]"
  by (simp add: deserializeMessage_eq declared_length_def be_word_def known_kind_def TEXT_MESSAGE_def)

text \<open>
  C6 (as amended). For every buffer on which decoding succeeds, the buffer holds at
  least 6 bytes plus the declared payload length, and the message's payload is exactly
  the declared number of bytes that follow offset 6 (zero included). Bytes after the
  declared payload are not looked at: appending any bytes to the buffer gives the
  same message.
\<close>

theorem decode_success_length:
  assumes "deserializeMessage host buffer = Some m"
  shows "6 + declared_length buffer \<le> length buffer
     \<and> length (payload m) = declared_length buffer
     \<and> payload m = take (declared_length buffer) (drop 6 buffer)
     \<and> deserializeMessage host (buffer @ trailing) = Some m"
proof -
  note d = deserializeMessage_SomeD [OF assms]
  have dl: "declared_length (buffer @ trailing) = declared_length buffer"
    using d(1) by (simp add: declared_length_def)
  have l: "6 \<le> length buffer" using d(1) by simp
  have n: "(buffer @ trailing) ! 0 = buffer ! 0" "(buffer @ trailing) ! 1 = buffer ! 1"
    using l by (auto simp add: nth_append)
  have p: "take (declared_length buffer) (drop 6 (buffer @ trailing))
             = take (declared_length buffer) (drop 6 buffer)"
    using d(1) by simp
  have "deserializeMessage host (buffer @ trailing) = deserializeMessage host buffer"
    using d(1) l unfolding deserializeMessage_eq dl n p by simp
  with assms d(1,2,3) show ?thesis by simp
qed

theorem decode_success_length_witness:
  "deserializeMessage LittleEndian [2, 5, 0, 0, 0, 1, 77] = Some (SnapshotMessage 5 [77])
   \<and> 6 + declared_length [2, 5, 0, 0, 0, 1, 77] \<le> length [2, 5, 0, 0, 0, 1, 77 :: uint8_t]
   \<and> deserializeMessage LittleEndian ([2, 5, 0, 0, 0, 1, 77] @ [1, 2, 3]) = Some (SnapshotMessage 5 [77])"
proof -
  have s: "deserializeMessage LittleEndian [2, 5, 0, 0, 0, 1, 77] = Some (SnapshotMessage 5 [77])"
    by (simp add: deserializeMessage_eq declared_length_def be_word_def known_kind_def
      TEXT_MESSAGE_def EVENT_MESSAGE_def SNAPSHOT_MESSAGE_def)
  from decode_success_length [OF s, of "[1, 2, 3]"] s show ?thesis by simp
qed

section \<open>Server: ids given at accept\<close>

lemma server_run_Nil: "server_run [] = ([], Server_init)"
  by (simp add: server_run_def)

lemma server_run_snoc: "server_run (events @ [e]) = server_step (server_run events) e"
  by (simp add: server_run_def)

lemma server_run_inv:
  "case server_run events of (started, srv) \<Rightarrow>
     length started = length (filter is_accepted events)
     \<and> map clientID started = map of_nat [1..<Suc (length started)]
     \<and> nextClientID srv = of_nat (Suc (length started))
     \<and> set (clients srv) \<subseteq> set started
     \<and> ((\<forall>e \<in> set events. \<not> is_disconnect e) \<longrightarrow> clients srv = started)"
proof (induction events rule: rev_induct)
  case Nil
  show ?case by (simp add: server_run_Nil Server_init_def)
next
  case (snoc e events)
  obtain started srv where r: "server_run events = (started, srv)"
    by (cases "server_run events")
  show ?case
  proof (cases e)
    case (Accept clientSocket)
    with snoc r show ?thesis
      by (auto simp add: server_run_snoc acceptClients_body_def Let_def)
  next
    case (Disconnect cid)
    with snoc r show ?thesis
      by (auto simp add: server_run_snoc remove_client_def)
  qed
qed

lemma unat_of_nat_u8: "k < 256 \<Longrightarrow> unat (of_nat k :: uint8_t) = k"
  by (simp add: unat_of_nat)

lemma unat_ids: 
  assumes "n \<le> 255"
  shows "map unat (map of_nat [1..<Suc n] :: uint8_t list) = [1..<Suc n]"
proof -
  have "map (\<lambda>k. unat (of_nat k :: uint8_t)) [1..<Suc n] = map (\<lambda>k. k) [1..<Suc n]"
    using assms by (intro map_cong refl) (simp add: unat_of_nat_u8 del: upt_Suc)
  then show ?thesis by (simp add: comp_def del: upt_Suc)
qed

lemma sequential_ids:
  fixes ids :: "uint8_t list"
  assumes "map unat ids = [1..<Suc n]"
  shows "distinct ids" and "sorted_wrt (<) ids" and "0 \<notin> set ids"
proof -
  have "distinct (map unat ids)" unfolding assms by (rule distinct_upt)
  then show "distinct ids" by (simp add: distinct_map)
  have "sorted_wrt (<) (map unat ids)" unfolding assms by (rule sorted_wrt_upt)
  then have "sorted_wrt (\<lambda>x y. unat x < unat y) ids" by (simp add: sorted_wrt_map)
  then show "sorted_wrt (<) ids"
    by (rule sorted_wrt_mono_rel [rotated]) (simp add: word_less_nat_alt)
  have "0 \<notin> set (map unat ids)" unfolding assms by (simp del: upt_Suc)
  then show "0 \<notin> set ids" by force
qed

lemma started_ids_nonzero:
  assumes "length (filter is_accepted events) \<le> 255"
    and "h \<in> set (clients (snd (server_run events)))"
  shows "clientID h \<noteq> 0"
proof -
  obtain started srv where r: "server_run events = (started, srv)"
    by (cases "server_run events")
  from server_run_inv [of events] r
  have n: "length started = length (filter is_accepted events)"
    and ids: "map clientID started = map of_nat [1..<Suc (length started)]"
    and sub: "set (clients srv) \<subseteq> set started"
    by simp_all
  have u: "map unat (map clientID started) = [1..<Suc (length started)]"
    unfolding ids using assms n unat_ids [of "length started"] by (simp del: upt_Suc)
  from sequential_ids(3) [OF u] have "0 \<notin> clientID ` set started" by simp
  with sub assms(2) r show ?thesis by (metis image_eqI snd_conv subsetD)
qed

text \<open>
  C9. For every run of the server in which at most 255 connections are accepted, the
  handlers started get the ids 1, 2, ..., N in acceptance order, whatever
  disconnects and failed accepts happen in between: the ids are distinct, start at 1
  and increase strictly, so an id freed by a disconnect is not given again. With no
  disconnect the registry holds exactly these handlers, in this order. Nothing but
  the width of the 8-bit counter bounds this.
\<close>

theorem ids_sequential:
  assumes "length (filter is_accepted events) \<le> 255"
  shows "map (\<lambda>h. unat (clientID h)) (fst (server_run events))
           = [1..<Suc (length (filter is_accepted events))]
     \<and> distinct (map clientID (fst (server_run events)))
     \<and> sorted_wrt (<) (map clientID (fst (server_run events)))
     \<and> ((\<forall>e \<in> set events. \<not> is_disconnect e)
          \<longrightarrow> clients (snd (server_run events)) = fst (server_run events))"
proof -
  obtain started srv where r: "server_run events = (started, srv)"
    by (cases "server_run events")
  from server_run_inv [of events] r
  have n: "length started = length (filter is_accepted events)"
    and ids: "map clientID started = map of_nat [1..<Suc (length started)]"
    and nd: "(\<forall>e \<in> set events. \<not> is_disconnect e) \<longrightarrow> clients srv = started"
    by simp_all
  have u: "map unat (map clientID started) = [1..<Suc (length started)]"
    unfolding ids using assms n unat_ids [of "length started"] by (simp del: upt_Suc)
  from sequential_ids(1,2) [OF u] u nd show ?thesis
    unfolding r by (simp add: n comp_def del: upt_Suc)
qed

theorem ids_sequential_witness:
  "map (\<lambda>h. unat (clientID h))
     (fst (server_run [Accept 4, Accept 5, Disconnect 1, Accept (- 1), Accept 4])) = [1, 2, 3]
   \<and> map (\<lambda>h. unat (clientID h)) (clients (snd (server_run [Accept 4, Accept 5]))) = [1, 2]"
  using ids_sequential [of "[Accept 4, Accept 5, Disconnect 1, Accept (- 1), Accept 4]"]
    ids_sequential [of "[Accept 4, Accept 5]"]
  by (simp add: INVALID_SOCKET_def upt_rec)

section \<open>Server: broadcast\<close>

lemma written_Nil: "written s [] = []"
  by (simp add: written_def)

lemma written_Cons:
  "written s ((s', bs) # calls) = (if s' = s then bs @ written s calls else written s calls)"
  by (simp add: written_def)

lemma send_loop_written:
  "written s (send_loop size_bytes buffer excludeID hs) =
     concat (map (\<lambda>h. if clientID h \<noteq> excludeID \<and> socket h = s then size_bytes @ buffer else []) hs)"
  by (induction hs) (simp_all add: written_Nil written_Cons)

lemma send_loop_sockets:
  "fst ` set (send_loop size_bytes buffer excludeID hs) =
     socket ` {h \<in> set hs. clientID h \<noteq> excludeID}"
  by (induction hs) auto

lemma concat_map_single:
  assumes "distinct (map f hs)" and "h \<in> set hs"
  shows "concat (map (\<lambda>h'. if P h' \<and> f h' = f h then bs else []) hs) = (if P h then bs else [])"
  using assms
proof (induction hs)
  case Nil
  then show ?case by simp
next
  case (Cons a hs)
  have none: "f h \<notin> f ` set hs \<Longrightarrow> concat (map (\<lambda>h'. if P h' \<and> f h' = f h then bs else []) hs) = []"
    by (induction hs) auto
  show ?case
  proof (cases "a = h")
    case True
    with Cons.prems none show ?thesis by auto
  next
    case False
    with Cons.prems have "h \<in> set hs" "f a \<noteq> f h" by auto
    with Cons show ?thesis by simp
  qed
qed

lemma broadcastMessage_eq:
  "broadcastMessage host msg excludeID srv =
     send_loop (be_bytes (of_nat (length (serializeMessage host msg []))))
       (serializeMessage host msg []) excludeID (clients srv)"
  by (simp add: broadcastMessage_def Let_def object_bytes_htonl)

lemma send_loop_no_exclusion:
  "\<forall>h \<in> set hs. clientID h \<noteq> excludeID \<Longrightarrow>
     send_loop size_bytes buffer excludeID hs
       = concat (map (\<lambda>h. [(socket h, size_bytes), (socket h, buffer)]) hs)"
  by (induction hs) simp_all

lemma send_loop_reaches:
  "h \<in> set hs \<Longrightarrow> clientID h \<noteq> excludeID
     \<Longrightarrow> socket h \<in> fst ` set (send_loop size_bytes buffer excludeID hs)"
  by (simp add: send_loop_sockets)

text \<open>
  The four bytes sent before the buffer are the low 32 bits of its size. A Text
  message with a payload of \<open>2 ^ 32 - 6\<close> bytes encodes to \<open>2 ^ 32\<close> bytes, and what
  \<^verbatim>\<open>broadcastMessage\<close> writes ahead of them is \<open>0, 0, 0, 0\<close>: not the byte count of what
  follows.
\<close>

theorem broadcast_prefix_wraps:
  "written 5 (broadcastMessage LittleEndian (TextMessage 1 (replicate (2 ^ 32 - 6) 0)) 1
        \<lparr>clients = [\<lparr>socket = 5, clientID = 2\<rparr>], nextClientID = 3, isRunning = True\<rparr>)
     = [0, 0, 0, 0] @ serializeMessage LittleEndian (TextMessage 1 (replicate (2 ^ 32 - 6) 0)) []
   \<and> length (serializeMessage LittleEndian (TextMessage 1 (replicate (2 ^ 32 - 6) 0)) []) = 2 ^ 32
   \<and> stream_frame (serializeMessage LittleEndian (TextMessage 1 (replicate (2 ^ 32 - 6) 0)) []) = None"
proof -
  let ?m = "TextMessage 1 (replicate (2 ^ 32 - 6) 0)"
  have l: "length (serializeMessage LittleEndian ?m []) = 2 ^ 32"
    by (simp add: length_serializeMessage)
  have z: "be_bytes (of_nat (length (serializeMessage LittleEndian ?m []))) = [0, 0, 0, 0]"
    unfolding l by (simp add: be_bytes_def)
  have w: "written 5 (broadcastMessage LittleEndian ?m 1
        \<lparr>clients = [\<lparr>socket = 5, clientID = 2\<rparr>], nextClientID = 3, isRunning = True\<rparr>)
     = [0, 0, 0, 0] @ serializeMessage LittleEndian ?m []"
    unfolding broadcastMessage_eq z by (simp add: written_Cons written_Nil)
  have n: "stream_frame (serializeMessage LittleEndian ?m []) = None"
    unfolding stream_frame_def l by simp
  from w l n show ?thesis by blast
qed

text \<open>
  C3 (as amended). For every message, every excluded id \<open>X\<close> and every registry (its
  open sockets being pairwise different descriptors), \<^verbatim>\<open>broadcastMessage(m, X)\<close> calls
  \<^verbatim>\<open>send\<close> on the socket of every registered connection whose id is not \<open>X\<close>, on no
  socket of a registered connection whose id is \<open>X\<close>, and on no socket outside the
  registry. When the encoded message is shorter than \<open>2 ^ 32\<close> bytes (a payload of
  fewer than \<open>2 ^ 32 - 6\<close> bytes), what is written to each of these sockets is exactly
  the length-prefixed frame of the encoded message.
\<close>

theorem broadcast_exclusion:
  assumes "distinct (map socket (clients srv))"
  shows "(\<forall>h \<in> set (clients srv).
            (clientID h \<noteq> X \<longrightarrow>
               socket h \<in> fst ` set (broadcastMessage host m X srv)
               \<and> (length (payload m) + 6 < 2 ^ 32 \<longrightarrow>
                    stream_frame (serializeMessage host m [])
                      = Some (written (socket h) (broadcastMessage host m X srv))))
          \<and> (clientID h = X \<longrightarrow>
               socket h \<notin> fst ` set (broadcastMessage host m X srv)))
     \<and> (\<forall>s. s \<notin> socket ` set (clients srv) \<longrightarrow> s \<notin> fst ` set (broadcastMessage host m X srv))"
proof -
  have a: "socket h \<in> fst ` set (broadcastMessage host m X srv)"
    if "h \<in> set (clients srv)" "clientID h \<noteq> X" for h
    using that by (simp add: broadcastMessage_eq send_loop_reaches)
  have b: "stream_frame (serializeMessage host m [])
             = Some (written (socket h) (broadcastMessage host m X srv))"
    if h: "h \<in> set (clients srv)" and x: "clientID h \<noteq> X"
      and len: "length (payload m) + 6 < 2 ^ 32" for h
  proof -
    let ?buffer = "serializeMessage host m []"
    have "written (socket h) (broadcastMessage host m X srv)
            = be_bytes (of_nat (length ?buffer)) @ ?buffer"
      unfolding broadcastMessage_eq send_loop_written
      using x by (simp add: concat_map_single [OF assms h, of "\<lambda>h. clientID h \<noteq> X"])
    moreover have "length ?buffer < 2 ^ 32"
      using len by (simp add: length_serializeMessage)
    ultimately show ?thesis by (simp add: stream_frame_def)
  qed
  have c: "socket h \<notin> fst ` set (broadcastMessage host m X srv)"
    if h: "h \<in> set (clients srv)" and x: "clientID h = X" for h
  proof
    assume "socket h \<in> fst ` set (broadcastMessage host m X srv)"
    then obtain h' where "h' \<in> set (clients srv)" "clientID h' \<noteq> X" "socket h' = socket h"
      by (auto simp add: broadcastMessage_eq send_loop_sockets)
    with assms h have "h' = h" by (auto simp add: distinct_map dest: inj_onD)
    with x \<open>clientID h' \<noteq> X\<close> show False by simp
  qed
  have d: "s \<notin> fst ` set (broadcastMessage host m X srv)" if "s \<notin> socket ` set (clients srv)" for s
    using that by (auto simp add: broadcastMessage_eq send_loop_sockets)
  from a b c d show ?thesis by blast
qed

theorem broadcast_exclusion_witness:
  "distinct (map socket [\<lparr>socket = 4, clientID = 1\<rparr>, \<lparr>socket = 5, clientID = 2\<rparr>])
   \<and> written 5 (broadcastMessage LittleEndian (TextMessage 1 [104, 105]) 1
        \<lparr>clients = [\<lparr>socket = 4, clientID = 1\<rparr>, \<lparr>socket = 5, clientID = 2\<rparr>],
         nextClientID = 3, isRunning = True\<rparr>)
      = [0, 0, 0, 8, 0, 1, 0, 0, 0, 2, 104, 105]
   \<and> 4 \<notin> fst ` set (broadcastMessage LittleEndian (TextMessage 1 [104, 105]) 1
        \<lparr>clients = [\<lparr>socket = 4, clientID = 1\<rparr>, \<lparr>socket = 5, clientID = 2\<rparr>],
         nextClientID = 3, isRunning = True\<rparr>)"
  using broadcast_exclusion [of "\<lparr>clients = [\<lparr>socket = 4, clientID = 1\<rparr>, \<lparr>socket = 5, clientID = 2\<rparr>],
         nextClientID = 3, isRunning = True\<rparr>" 1 LittleEndian "TextMessage 1 [104, 105]"]
  by (simp add: stream_frame_def serializeMessage_eq be_bytes_def TEXT_MESSAGE_def)

text \<open>
  C10. In every registry state reached with fewer than 256 accepted connections no
  registered connection has id 0, so a broadcast with \<^verbatim>\<open>excludeID\<close> 0, the default
  value of the parameter, sends the size and the frame to every registered
  connection, in registry order, and leaves nobody out.
\<close>

theorem broadcast_default_excludes_nobody:
  assumes "length (filter is_accepted events) \<le> 255"
  shows "(\<forall>h \<in> set (clients (snd (server_run events))). clientID h \<noteq> 0)
     \<and> broadcastMessage host m 0 (snd (server_run events))
         = concat (map (\<lambda>h. [(socket h, be_bytes (of_nat (length (serializeMessage host m [])))),
                              (socket h, serializeMessage host m [])])
                     (clients (snd (server_run events))))"
  using assms by (simp add: started_ids_nonzero broadcastMessage_eq send_loop_no_exclusion)

theorem broadcast_default_excludes_nobody_witness:
  "broadcastMessage BigEndian (EventMessage 2 [7]) 0 (snd (server_run [Accept 4, Accept 5, Disconnect 1]))
     = [(5, [0, 0, 0, 7]), (5, [1, 2, 0, 0, 0, 1, 7])]"
  using broadcast_default_excludes_nobody [of "[Accept 4, Accept 5, Disconnect 1]" BigEndian "EventMessage 2 [7]"]
  by (simp add: server_run_def INVALID_SOCKET_def acceptClients_body_def Server_init_def
      Let_def remove_client_def serializeMessage_eq be_bytes_def EVENT_MESSAGE_def)

section \<open>Server: connection handler\<close>

text \<open>One iteration of the handler's loop ends the loop, or goes round again on a
  socket that holds less, with or without a broadcast.\<close>

lemma handleClient_loop_cases:
  obtains (exit) "handleClient_loop host cid stale exit_actions input = exit_actions"
  | (dropped) input2 where "pending input2 < pending input"
      and "handleClient_loop host cid stale exit_actions input
             = handleClient_loop host cid (\<lambda>k. stale (Suc k)) exit_actions input2"
  | (broadcast) msg input2 where "pending input2 < pending input"
      and "handleClient_loop host cid stale exit_actions input
             = Broadcast (set_senderID msg cid) cid
                 # handleClient_loop host cid (\<lambda>k. stale (Suc k)) exit_actions input2"
proof -
  obtain r received input1 where rv: "recv 4 input = (r, received, input1)"
    by (cases "recv 4 input") auto
  let ?msgSize = "unat (ntohl host (object_value host
                    (received @ drop (length received) (object_bytes host (stale 0)))))"
  obtain r2 buffer input2 where
    rp: "recv_payload ?msgSize 0 (replicate ?msgSize 0) r input1 = (r2, buffer, input2)"
    by (cases "recv_payload ?msgSize 0 (replicate ?msgSize 0) r input1") auto
  consider "r \<le> 0" | "0 < r" "r2 \<le> 0"
    | "0 < r" "0 < r2" "deserializeMessage host buffer = None"
    | msg where "0 < r" "0 < r2" "deserializeMessage host buffer = Some msg"
    by (cases "deserializeMessage host buffer") force+
  then show ?thesis
  proof cases
    case 1
    with rv have "handleClient_loop host cid stale exit_actions input = exit_actions"
      by (subst handleClient_loop.simps) simp
    then show ?thesis by (rule exit)
  next
    case 2
    with rv rp have "handleClient_loop host cid stale exit_actions input = exit_actions"
      by (subst handleClient_loop.simps) (simp add: Let_def)
    then show ?thesis by (rule exit)
  next
    case 3
    from rv 3(1) have "pending input1 < pending input" by (intro recv_pending_less) auto
    with recv_payload_pending_le [OF rp] have "pending input2 < pending input" by simp
    moreover from rv rp 3 have "handleClient_loop host cid stale exit_actions input
             = handleClient_loop host cid (\<lambda>k. stale (Suc k)) exit_actions input2"
      by (subst handleClient_loop.simps) (simp add: Let_def)
    ultimately show ?thesis by (rule dropped)
  next
    case 4
    from rv 4(1) have "pending input1 < pending input" by (intro recv_pending_less) auto
    with recv_payload_pending_le [OF rp] have "pending input2 < pending input" by simp
    moreover from rv rp 4 have "handleClient_loop host cid stale exit_actions input
        = Broadcast (set_senderID msg cid) cid
            # handleClient_loop host cid (\<lambda>k. stale (Suc k)) exit_actions input2"
      by (subst handleClient_loop.simps) (simp add: Let_def)
    ultimately show ?thesis by (rule broadcast)
  qed
qed



text \<open>On a finite stream the loop always comes to its exit: the handler makes some
  broadcasts and then does what follows the loop.\<close>

lemma handleClient_loop_ends:
  "\<exists>msgs. handleClient_loop host cid stale exit_actions input
             = map (\<lambda>m. Broadcast m cid) msgs @ exit_actions"
proof (induction "pending input" arbitrary: input stale rule: less_induct)
  case less
  show ?case
  proof (cases rule: handleClient_loop_cases [of host cid stale exit_actions input])
    case exit
    then have "handleClient_loop host cid stale exit_actions input
                 = map (\<lambda>m. Broadcast m cid) [] @ exit_actions" by simp
    then show ?thesis by (rule exI)
  next
    case (dropped input2)
    with less.hyps [of input2 "\<lambda>k. stale (Suc k)"] show ?thesis by simp
  next
    case (broadcast msg input2)
    from less.hyps [OF broadcast(1), of "\<lambda>k. stale (Suc k)"]
    obtain msgs where "handleClient_loop host cid (\<lambda>k. stale (Suc k)) exit_actions input2
                         = map (\<lambda>m. Broadcast m cid) msgs @ exit_actions" by blast
    with broadcast(2) have "handleClient_loop host cid stale exit_actions input
        = map (\<lambda>m. Broadcast m cid) (set_senderID msg cid # msgs) @ exit_actions" by simp
    then show ?thesis by (rule exI)
  qed
qed

lemma read_fails_recv: "read_fails input \<Longrightarrow> fst (recv len input) \<le> 0"
  by (induction input rule: read_fails.induct) simp_all

lemma handleClient_loop_closed:
  assumes "read_fails input"
  shows "handleClient_loop host cid stale exit_actions input = exit_actions"
  using read_fails_recv [OF assms, of 4]
  by (subst handleClient_loop.simps) (auto split: prod.splits)

lemma recv_header:
  "recv 4 (Segment (be_bytes n @ buf) # rest)
     = (4, be_bytes n, if buf = [] then rest else Segment buf # rest)"
  by (simp add: length_be_bytes)

lemma length_object_bytes: "length (object_bytes host w) = 4"
  by (cases host) (simp_all add: object_bytes_def length_be_bytes)

lemma msgSize_be_bytes:
  "unat (ntohl host (object_value host
      (be_bytes n @ drop (length (be_bytes n)) (object_bytes host w)))) = unat n"
  by (simp add: ntohl_object_value length_be_bytes be_word_be_bytes length_object_bytes)

lemma recv_payload_done:
  "recv_payload msgSize msgSize buffer r input = (r, buffer, input)"
  by (subst recv_payload.simps) simp

lemma recv_payload_whole:
  "recv_payload (length buf) 0 (replicate (length buf) 0) 4
       (if buf = [] then rest else Segment buf # rest)
     = (if buf = [] then 4 else int (length buf), buf, rest)"
proof (cases "buf = []")
  case True
  then show ?thesis by (simp add: recv_payload_done [of 0, simplified])
next
  case False
  then show ?thesis
    by (subst recv_payload.simps) (simp add: recv_payload_done)
qed

lemma stream_frame_SomeD:
  assumes "stream_frame buf = Some frame"
  shows "frame = be_bytes (of_nat (length buf)) @ buf"
    and "unat (of_nat (length buf) :: uint32_t) = length buf"
  using assms by (simp_all add: stream_frame_def unat_of_nat split: if_splits)

lemma handleClient_loop_frame:
  assumes "stream_frame buf = Some frame"
  shows "handleClient_loop host cid stale exit_actions (Segment frame # rest) =
     (case deserializeMessage host buf of
        Some msg \<Rightarrow> Broadcast (set_senderID msg cid) cid
                      # handleClient_loop host cid (\<lambda>k. stale (Suc k)) exit_actions rest
      | None \<Rightarrow> handleClient_loop host cid (\<lambda>k. stale (Suc k)) exit_actions rest)"
  unfolding stream_frame_SomeD(1) [OF assms]
  by (subst handleClient_loop.simps)
     (simp only: recv_header prod.case msgSize_be_bytes stream_frame_SomeD(2) [OF assms]
        Let_def recv_payload_whole,
      simp split: option.splits)

lemma recv_payload_fails:
  assumes "\<forall>p \<in> set parts. p \<noteq> []" and "t + length (concat parts) < msgSize"
    and "read_fails tail"
  shows "fst (recv_payload msgSize t buffer r (map Segment parts @ tail)) \<le> 0"
  using assms(1,2)
proof (induction parts arbitrary: t buffer r)
  case Nil
  with read_fails_recv [OF assms(3), of "msgSize - t"] show ?case
    by (subst recv_payload.simps) (auto split: prod.splits)
next
  case (Cons p parts)
  from Cons.prems have "p \<noteq> []" "t < msgSize" "length p \<le> msgSize - t"
    "\<forall>p \<in> set parts. p \<noteq> []" "(t + length p) + length (concat parts) < msgSize"
    by auto
  with Cons.IH [of "t + length p"] show ?case
    by (subst recv_payload.simps) simp
qed

lemma handleClient_loop_cut:
  assumes "\<forall>p \<in> set parts. p \<noteq> []"
    and "length part + length (concat parts) < unat n" and "read_fails tail"
  shows "handleClient_loop host cid stale exit_actions
           (Segment (be_bytes n @ part) # map Segment parts @ tail) = exit_actions"
proof -
  let ?parts = "if part = [] then parts else part # parts"
  have i: "(if part = [] then map Segment parts @ tail else Segment part # map Segment parts @ tail)
             = map Segment ?parts @ tail" by simp
  obtain r2 buffer input2 where rp:
    "recv_payload (unat n) 0 (replicate (unat n) 0) 4 (map Segment ?parts @ tail)
       = (r2, buffer, input2)"
    by (cases "recv_payload (unat n) 0 (replicate (unat n) 0) 4 (map Segment ?parts @ tail)") auto
  have "\<forall>p \<in> set ?parts. p \<noteq> []" "0 + length (concat ?parts) < unat n"
    using assms(1,2) by auto
  from recv_payload_fails [OF this assms(3), of "replicate (unat n) 0" 4] rp
  have "r2 \<le> 0" by simp
  then show ?thesis
    by (subst handleClient_loop.simps)
       (simp only: recv_header prod.case msgSize_be_bytes Let_def i rp, simp)
qed

lemma handleClient_loop_short:
  assumes "bs \<noteq> []" and "length bs < 4" and "read_fails tail"
  shows "handleClient_loop host cid stale exit_actions (Segment bs # tail) = exit_actions"
proof -
  let ?msgSize = "unat (ntohl host (object_value host
                    (bs @ drop (length bs) (object_bytes host (stale 0)))))"
  have rv: "recv 4 (Segment bs # tail) = (int (length bs), bs, tail)"
    using assms(2) by simp
  have pos: "\<not> int (length bs) \<le> 0" using assms(1) by simp
  obtain r2 buffer input2 where rp:
    "recv_payload ?msgSize 0 (replicate ?msgSize 0) (int (length bs)) tail = (r2, buffer, input2)"
    by (cases "recv_payload ?msgSize 0 (replicate ?msgSize 0) (int (length bs)) tail") auto
  have step: "handleClient_loop host cid stale exit_actions (Segment bs # tail) =
      (if r2 \<le> 0 then exit_actions
       else case deserializeMessage host buffer of
              Some msg \<Rightarrow> Broadcast (set_senderID msg cid) cid
                  # handleClient_loop host cid (\<lambda>k. stale (Suc k)) exit_actions input2
            | None \<Rightarrow> handleClient_loop host cid (\<lambda>k. stale (Suc k)) exit_actions input2)"
    by (subst handleClient_loop.simps) (simp only: rv prod.case pos if_False Let_def rp)
  show ?thesis
  proof (cases "?msgSize = 0")
    case True
    with rp have "r2 = int (length bs)" "buffer = []" "input2 = tail"
      by (simp_all add: recv_payload_done [of 0, simplified])
    moreover have "deserializeMessage host [] = None" by (simp add: deserializeMessage_def)
    ultimately show ?thesis
      unfolding step using pos by (simp add: handleClient_loop_closed [OF assms(3)])
  next
    case False
    with recv_payload_fails [of "[]" 0 ?msgSize tail "replicate ?msgSize 0" "int (length bs)"]
      assms(3) rp
    have "r2 \<le> 0" by simp
    then show ?thesis unfolding step by simp
  qed
qed


lemma handleClient_eq:
  "handleClient host stale h input =
     handleClient_loop host (clientID h) stale
       [RemoveClient (clientID h), CloseSocket (socket h)] input"
  by (simp add: handleClient_def Let_def)



text \<open>
  A frame that fails to decode does not end the loop: after the three bytes
  \<open>9, 9, 9\<close> (no known kind) the handler reads the next frame and broadcasts it.
\<close>

theorem handler_survives_decode_failure:
  "deserializeMessage LittleEndian [9, 9, 9] = None
   \<and> handleClient LittleEndian of_nat \<lparr>socket = 5, clientID = 1\<rparr>
        [Segment [0, 0, 0, 3, 9, 9, 9], Segment [0, 0, 0, 7, 0, 42, 0, 0, 0, 1, 65]]
     = [Broadcast (TextMessage 1 [65]) 1, RemoveClient 1, CloseSocket 5]"
proof -
  have f: "stream_frame [9, 9, 9 :: uint8_t] = Some [0, 0, 0, 3, 9, 9, 9]"
    "stream_frame [0, 42, 0, 0, 0, 1, 65 :: uint8_t] = Some [0, 0, 0, 7, 0, 42, 0, 0, 0, 1, 65]"
    by (simp_all add: stream_frame_def be_bytes_def)
  have d: "deserializeMessage LittleEndian [9, 9, 9] = None"
    "deserializeMessage LittleEndian [0, 42, 0, 0, 0, 1, 65] = Some (TextMessage 42 [65])"
    by (simp_all add: deserializeMessage_eq declared_length_def be_word_def known_kind_def
        TEXT_MESSAGE_def EVENT_MESSAGE_def SNAPSHOT_MESSAGE_def)
  show ?thesis
    unfolding handleClient_eq
    by (simp add: handleClient_loop_frame [OF f(1)] handleClient_loop_frame [OF f(2)] d
        handleClient_loop_closed)
qed

text \<open>
  C7 (as amended). A handler leaves its read loop, and tears the connection down,
  when the read of the length field returns zero or a negative value, and when a read
  of the payload does so before the declared number of bytes has arrived, in
  whichever segment that happens; the same holds when the read that follows a length
  field of one to three bytes returns zero or a negative value. When the decode of a
  fully read frame fails, the handler drops the frame and goes on reading: what it
  does is what it does on the rest of the stream. On every finite stream the handler
  ends with the teardown.
\<close>

theorem handler_loop_exits:
  "(read_fails input \<longrightarrow>
      handleClient host stale h input = [RemoveClient (clientID h), CloseSocket (socket h)])
   \<and> (\<forall>n part parts tail.
         (\<forall>p \<in> set parts. p \<noteq> []) \<and> length part + length (concat parts) < unat n
           \<and> read_fails tail \<longrightarrow>
         handleClient host stale h (Segment (be_bytes n @ part) # map Segment parts @ tail)
           = [RemoveClient (clientID h), CloseSocket (socket h)])
   \<and> (\<forall>bs tail. bs \<noteq> [] \<and> length bs < 4 \<and> read_fails tail \<longrightarrow>
         handleClient host stale h (Segment bs # tail)
           = [RemoveClient (clientID h), CloseSocket (socket h)])
   \<and> (\<forall>buf frame rest. stream_frame buf = Some frame \<and> deserializeMessage host buf = None \<longrightarrow>
         handleClient host stale h (Segment frame # rest)
           = handleClient host (\<lambda>k. stale (Suc k)) h rest)
   \<and> (\<exists>msgs. handleClient host stale h input
          = map (\<lambda>m. Broadcast m (clientID h)) msgs
              @ [RemoveClient (clientID h), CloseSocket (socket h)])"
proof -
  let ?exit = "[RemoveClient (clientID h), CloseSocket (socket h)]"
  have a: "handleClient host stale h input = ?exit" if "read_fails input"
    using that by (simp add: handleClient_eq handleClient_loop_closed)
  have b: "handleClient host stale h (Segment (be_bytes n @ part) # map Segment parts @ tail)
             = ?exit"
    if "(\<forall>p \<in> set parts. p \<noteq> []) \<and> length part + length (concat parts) < unat n
           \<and> read_fails tail" for n part parts tail
    using that by (simp add: handleClient_eq handleClient_loop_cut)
  have c: "handleClient host stale h (Segment bs # tail) = ?exit"
    if "bs \<noteq> [] \<and> length bs < 4 \<and> read_fails tail" for bs tail
    using that by (simp add: handleClient_eq handleClient_loop_short)
  have d: "handleClient host stale h (Segment frame # rest)
             = handleClient host (\<lambda>k. stale (Suc k)) h rest"
    if "stream_frame buf = Some frame \<and> deserializeMessage host buf = None" for buf frame rest
    using that by (simp add: handleClient_eq handleClient_loop_frame [of buf frame])
  have e: "\<exists>msgs. handleClient host stale h input
             = map (\<lambda>m. Broadcast m (clientID h)) msgs @ ?exit"
    unfolding handleClient_eq by (rule handleClient_loop_ends)
  from a b c d e show ?thesis by blast
qed

theorem handler_loop_exits_witness:
  "handleClient BigEndian of_nat \<lparr>socket = 5, clientID = 1\<rparr>
       [Segment [0, 0, 0, 5, 1], Segment [2, 3], SocketError]
     = [RemoveClient 1, CloseSocket 5]
   \<and> handleClient BigEndian of_nat \<lparr>socket = 5, clientID = 1\<rparr> [Segment [0, 0]]
     = [RemoveClient 1, CloseSocket 5]
   \<and> handleClient BigEndian of_nat \<lparr>socket = 5, clientID = 1\<rparr> [Segment [0, 0, 0, 3, 9, 9, 9]]
     = [RemoveClient 1, CloseSocket 5]"
proof -
  let ?h = "\<lparr>socket = 5, clientID = 1\<rparr>"
  have f: "[Segment [0, 0, 0, 5, 1], Segment [2, 3], SocketError]
             = Segment (be_bytes 5 @ [1]) # map Segment [[2, 3]] @ [SocketError]"
    by (simp add: be_bytes_def)
  have g: "stream_frame [9, 9, 9 :: uint8_t] = Some [0, 0, 0, 3, 9, 9, 9]"
    by (simp add: stream_frame_def be_bytes_def)
  have d: "deserializeMessage BigEndian [9, 9, 9] = None"
    by (simp add: deserializeMessage_eq declared_length_def be_word_def known_kind_def
        TEXT_MESSAGE_def EVENT_MESSAGE_def SNAPSHOT_MESSAGE_def)
  note t = handler_loop_exits [of _ BigEndian _ ?h]
  have 1: "handleClient BigEndian of_nat ?h
             (Segment (be_bytes 5 @ [1]) # map Segment [[2, 3]] @ [SocketError])
           = [RemoveClient (clientID ?h), CloseSocket (socket ?h)]"
    using t [of "[]" of_nat, THEN conjunct2, THEN conjunct1, rule_format,
        of "[[2, 3]]" "[1]" 5 "[SocketError]"]
    by simp
  have 2: "handleClient BigEndian of_nat ?h [Segment [0, 0]]
           = [RemoveClient (clientID ?h), CloseSocket (socket ?h)]"
    using t [of "[]" of_nat, THEN conjunct2, THEN conjunct2, THEN conjunct1, rule_format,
        of "[0, 0]" "[]"]
    by simp
  have 3: "handleClient BigEndian of_nat ?h [Segment [0, 0, 0, 3, 9, 9, 9]]
           = handleClient BigEndian (\<lambda>k. of_nat (Suc k)) ?h []"
    using t [of "[]" of_nat, THEN conjunct2, THEN conjunct2, THEN conjunct2, THEN conjunct1,
        rule_format, of "[9, 9, 9]" "[0, 0, 0, 3, 9, 9, 9]" "[]"] g d
    by simp
  have 4: "handleClient BigEndian (\<lambda>k. of_nat (Suc k)) ?h []
           = [RemoveClient (clientID ?h), CloseSocket (socket ?h)]"
    using handler_loop_exits [of "[]" BigEndian "\<lambda>k. of_nat (Suc k)" ?h] by simp
  show ?thesis unfolding f 1 2 3 4 by simp
qed

section \<open>Client: classifying received messages\<close>

lemma keys_map_assign: "fst ` set (map_assign key val m) = insert key (fst ` set m)"
  by (induction key val m rule: map_assign.induct) (simp_all add: insert_commute)

lemma map_ok_Cons: "map_ok ((k, v) # m) \<longleftrightarrow> (\<forall>k' \<in> fst ` set m. k < k') \<and> map_ok m"
  by (auto simp add: map_ok_def)

lemma map_ok_map_assign: "map_ok m \<Longrightarrow> map_ok (map_assign key val m)"
proof (induction m)
  case Nil
  then show ?case by (simp add: map_ok_def)
next
  case (Cons e m)
  obtain k v where e: "e = (k, v)" by (cases e)
  from Cons show ?case
    unfolding e by (auto simp add: map_ok_Cons keys_map_assign)
qed

lemma entries_for_absent: "key \<notin> fst ` set m \<Longrightarrow> entries_for key m = []"
  by (induction m) (auto simp add: entries_for_def)

lemma entries_for_map_assign_same:
  "map_ok m \<Longrightarrow> entries_for key (map_assign key val m) = [val]"
proof (induction m)
  case Nil
  then show ?case by (simp add: entries_for_def)
next
  case (Cons e m)
  obtain k v where e: "e = (k, v)" by (cases e)
  show ?case
  proof (cases "key < k")
    case True
    with Cons.prems have "key \<notin> fst ` set (e # m)"
      unfolding e by (auto simp add: map_ok_Cons)
    from entries_for_absent [OF this] True show ?thesis
      unfolding e by (simp add: entries_for_def)
  next
    case False
    show ?thesis
    proof (cases "key = k")
      case True
      with Cons.prems have "key \<notin> fst ` set m"
        unfolding e by (auto simp add: map_ok_Cons)
      from entries_for_absent [OF this] True show ?thesis
        unfolding e by (simp add: entries_for_def)
    next
      case False
      with \<open>\<not> key < k\<close> Cons show ?thesis
        unfolding e by (simp add: entries_for_def map_ok_Cons)
    qed
  qed
qed

lemma entries_for_map_assign_other:
  "key' \<noteq> key \<Longrightarrow> entries_for key' (map_assign key val m) = entries_for key' m"
  by (induction m) (auto simp add: entries_for_def)

lemma sortMessageByType_simps:
  "sortMessageByType (TextMessage s p) cl = cl\<lparr>textMessages := textMessages cl @ [TextMessage s p]\<rparr>"
  "sortMessageByType (EventMessage s p) cl = cl\<lparr>eventMessages := eventMessages cl @ [EventMessage s p]\<rparr>"
  "sortMessageByType (SnapshotMessage s p) cl =
     cl\<lparr>snapshotMessages := map_assign s (SnapshotMessage s p) (snapshotMessages cl)\<rparr>"
  by (simp_all add: sortMessageByType_def)

lemma classify_map_ok:
  "map_ok (snapshotMessages cl)
     \<Longrightarrow> map_ok (snapshotMessages (foldl (\<lambda>c m. sortMessageByType m c) cl msgs))"
proof (induction msgs rule: rev_induct)
  case Nil
  then show ?case by simp
next
  case (snoc m msgs)
  then show ?case by (cases m) (simp_all add: sortMessageByType_simps map_ok_map_assign)
qed

lemma classify_texts:
  "textMessages (foldl (\<lambda>c m. sortMessageByType m c) cl msgs)
     = textMessages cl @ filter (\<lambda>m. messageType m = TEXT_MESSAGE) msgs"
proof (induction msgs rule: rev_induct)
  case Nil
  then show ?case by simp
next
  case (snoc m msgs)
  then show ?case by (cases m) (simp_all add: sortMessageByType_simps kinds_distinct)
qed

lemma classify_events:
  "eventMessages (foldl (\<lambda>c m. sortMessageByType m c) cl msgs)
     = eventMessages cl @ filter (\<lambda>m. messageType m = EVENT_MESSAGE) msgs"
proof (induction msgs rule: rev_induct)
  case Nil
  then show ?case by simp
next
  case (snoc m msgs)
  then show ?case by (cases m) (simp_all add: sortMessageByType_simps kinds_distinct)
qed

lemma classify_snapshots:
  assumes "map_ok (snapshotMessages cl)"
  shows "entries_for S (snapshotMessages (foldl (\<lambda>c m. sortMessageByType m c) cl msgs))
     = (if filter (\<lambda>m. messageType m = SNAPSHOT_MESSAGE \<and> senderID m = S) msgs = []
        then entries_for S (snapshotMessages cl)
        else [last (filter (\<lambda>m. messageType m = SNAPSHOT_MESSAGE \<and> senderID m = S) msgs)])"
proof (induction msgs rule: rev_induct)
  case Nil
  then show ?case by simp
next
  case (snoc m msgs)
  note ok = classify_map_ok [OF assms, of msgs]
  show ?case
  proof (cases m)
    case (SnapshotMessage s p)
    show ?thesis
    proof (cases "s = S")
      case True
      with SnapshotMessage ok show ?thesis
        by (simp add: sortMessageByType_simps entries_for_map_assign_same)
    next
      case False
      with SnapshotMessage snoc show ?thesis
        by (simp add: sortMessageByType_simps entries_for_map_assign_other)
    qed
  qed (use snoc in \<open>simp_all add: sortMessageByType_simps kinds_distinct\<close>)
qed

text \<open>
  C4. For every mailbox (its snapshot map being a \<^verbatim>\<open>std::map\<close>: one entry per key, in
  key order) and every sender \<open>S\<close>: classifying a Snapshot message from \<open>S\<close> leaves
  exactly one entry for \<open>S\<close>, the message just classified, whether or not the map held
  one before. After classifying any sequence of messages that holds a Snapshot from
  \<open>S\<close>, and so after any non-empty sequence of Snapshots from \<open>S\<close>, the map holds
  exactly one entry for \<open>S\<close>, the last Snapshot from \<open>S\<close> of the sequence. Text and
  Event messages are appended to the back of their vectors in arrival order.
\<close>

theorem snapshot_last_write_wins:
  assumes "map_ok (snapshotMessages cl)"
  shows "entries_for S (snapshotMessages (sortMessageByType (SnapshotMessage S p) cl))
           = [SnapshotMessage S p]
     \<and> (\<forall>msgs. filter (\<lambda>m. messageType m = SNAPSHOT_MESSAGE \<and> senderID m = S) msgs \<noteq> [] \<longrightarrow>
           entries_for S (snapshotMessages (foldl (\<lambda>c m. sortMessageByType m c) cl msgs))
             = [last (filter (\<lambda>m. messageType m = SNAPSHOT_MESSAGE \<and> senderID m = S) msgs)])
     \<and> (\<forall>ps. ps \<noteq> [] \<longrightarrow>
           entries_for S (snapshotMessages
               (foldl (\<lambda>c m. sortMessageByType m c) cl (map (SnapshotMessage S) ps)))
             = [SnapshotMessage S (last ps)])
     \<and> (\<forall>msgs.
           textMessages (foldl (\<lambda>c m. sortMessageByType m c) cl msgs)
             = textMessages cl @ filter (\<lambda>m. messageType m = TEXT_MESSAGE) msgs
         \<and> eventMessages (foldl (\<lambda>c m. sortMessageByType m c) cl msgs)
             = eventMessages cl @ filter (\<lambda>m. messageType m = EVENT_MESSAGE) msgs)"
proof -
  have a: "entries_for S (snapshotMessages (sortMessageByType (SnapshotMessage S p) cl))
           = [SnapshotMessage S p]"
    using assms by (simp add: sortMessageByType_simps entries_for_map_assign_same)
  have c: "entries_for S (snapshotMessages
               (foldl (\<lambda>c m. sortMessageByType m c) cl (map (SnapshotMessage S) ps)))
             = [SnapshotMessage S (last ps)]" if "ps \<noteq> []" for ps
  proof -
    have "filter (\<lambda>m. messageType m = SNAPSHOT_MESSAGE \<and> senderID m = S) (map (SnapshotMessage S) ps)
            = map (SnapshotMessage S) ps"
      by (induction ps) simp_all
    with that show ?thesis
      by (simp add: classify_snapshots [OF assms] last_map)
  qed
  from a c show ?thesis
    by (simp add: classify_snapshots [OF assms] classify_texts classify_events)
qed

theorem snapshot_last_write_wins_witness:
  "map_ok [(3 :: uint8_t, SnapshotMessage 3 [9])]
   \<and> snapshotMessages (foldl (\<lambda>c m. sortMessageByType m c)
       \<lparr>textMessages = [], eventMessages = [], snapshotMessages = [(3, SnapshotMessage 3 [9])]\<rparr>
       [SnapshotMessage 3 [1], TextMessage 3 [104], SnapshotMessage 3 [2]])
     = [(3, SnapshotMessage 3 [2])]
   \<and> textMessages (foldl (\<lambda>c m. sortMessageByType m c)
       \<lparr>textMessages = [], eventMessages = [], snapshotMessages = [(3, SnapshotMessage 3 [9])]\<rparr>
       [SnapshotMessage 3 [1], TextMessage 3 [104], SnapshotMessage 3 [2]])
     = [TextMessage 3 [104]]"
  using snapshot_last_write_wins [of
      "\<lparr>textMessages = [], eventMessages = [], snapshotMessages = [(3, SnapshotMessage 3 [9])]\<rparr>" 3 "[2]"]
  by (simp add: map_ok_def sortMessageByType_simps)

section \<open>Client: drain tick\<close>

lemma drain_loop_eq: "drain_loop handler trace xs = (trace @ map handler xs, [])"
  by (induction xs arbitrary: trace) simp_all

lemma processMessages_body_eq:
  "processMessages_body cl =
     ([Lock] @ map DisplayTextMessage (textMessages cl)
        @ map ProcessEventMessage (eventMessages cl)
        @ map (\<lambda>entry. ProcessSnapshotMessage (snd entry)) (snapshotMessages cl)
        @ [Unlock, Sleep100],
      cl\<lparr>textMessages := [], eventMessages := [], snapshotMessages := []\<rparr>)"
  by (simp add: processMessages_body_def drain_loop_eq)

lemma handled_append: "handled (xs @ ys) = handled xs @ handled ys"
  by (induction xs rule: handled.induct) simp_all

lemma handled_maps:
  "handled (map DisplayTextMessage ms) = ms"
  "handled (map ProcessEventMessage ms) = ms"
  "handled (map (\<lambda>entry. ProcessSnapshotMessage (snd entry)) es) = map snd es"
  by (induction ms, simp_all) (induction es, simp_all)

text \<open>
  The handlers run while the lock is held: with one Text message in the mailbox the
  tick takes the lock, calls \<^verbatim>\<open>displayTextMessage\<close>, and only then releases the lock.
\<close>

theorem drain_calls_handlers_under_lock:
  "fst (processMessages_body
          \<lparr>textMessages = [TextMessage 1 [104]], eventMessages = [], snapshotMessages = []\<rparr>)
     = [Lock, DisplayTextMessage (TextMessage 1 [104]), Unlock, Sleep100]"
  by (simp add: processMessages_body_eq)

text \<open>
  C8 (as amended). Each drain tick takes the lock once, and inside this one critical
  section calls the handler on, and erases, every entry of the three containers: all
  Text messages in vector order, then all Event messages in vector order, then all
  Snapshot entries in map iteration order; it releases the lock after the last
  handler has returned, and sleeps. The handlers are called on exactly the entries
  the mailbox held, each once; after the tick the three containers are empty, so a
  tick that follows with no insertion in between calls no handler.
\<close>

theorem drain_tick:
  "processMessages_body cl =
     ([Lock] @ map DisplayTextMessage (textMessages cl)
        @ map ProcessEventMessage (eventMessages cl)
        @ map (\<lambda>entry. ProcessSnapshotMessage (snd entry)) (snapshotMessages cl)
        @ [Unlock, Sleep100],
      cl\<lparr>textMessages := [], eventMessages := [], snapshotMessages := []\<rparr>)
   \<and> handled (fst (processMessages_body cl))
       = textMessages cl @ eventMessages cl @ map snd (snapshotMessages cl)
   \<and> fst (processMessages_body (snd (processMessages_body cl))) = [Lock, Unlock, Sleep100]"
  by (simp add: processMessages_body_eq handled_append handled_maps)

theorem drain_tick_witness:
  "processMessages_body
     \<lparr>textMessages = [TextMessage 1 [104], TextMessage 2 [105]],
      eventMessages = [EventMessage 3 []],
      snapshotMessages = [(1, SnapshotMessage 1 [7]), (4, SnapshotMessage 4 [8])]\<rparr>
   = ([Lock, DisplayTextMessage (TextMessage 1 [104]), DisplayTextMessage (TextMessage 2 [105]),
       ProcessEventMessage (EventMessage 3 []),
       ProcessSnapshotMessage (SnapshotMessage 1 [7]), ProcessSnapshotMessage (SnapshotMessage 4 [8]),
       Unlock, Sleep100],
      \<lparr>textMessages = [], eventMessages = [], snapshotMessages = []\<rparr>)"
  using drain_tick [of "\<lparr>textMessages = [TextMessage 1 [104], TextMessage 2 [105]],
      eventMessages = [EventMessage 3 []],
      snapshotMessages = [(1, SnapshotMessage 1 [7]), (4, SnapshotMessage 4 [8])]\<rparr>"]
  by simp

end
